theory Spec2Isabelle
  imports Main "HOL-Library.Word" "HOL-Library.Sublist"
begin

section \<open>Bytes, slices and the primitives of the Python runtime\<close>

text \<open>
  The extractor \<^verbatim>\<open>extract_cg.py\<close> works on Python \<^verbatim>\<open>bytes\<close> objects and on
  unbounded integers. A buffer is a list of 8-bit words, an offset is an \<open>int\<close>.
  Slicing follows Python: a negative bound counts from the end, every bound is
  clipped to the buffer, and an empty range gives the empty buffer.
\<close>

type_synonym byte = "8 word"
type_synonym bytes = "byte list"

datatype error = StructError | LoadError | ReadError | IOError

definition clip_index :: "nat \<Rightarrow> int \<Rightarrow> nat" where
  "clip_index n i = (if i < 0 then nat (int n + i) else min (nat i) n)"

definition py_slice :: "'a list \<Rightarrow> int \<Rightarrow> int \<Rightarrow> 'a list" where
  "py_slice xs a b = take (clip_index (length xs) b - clip_index (length xs) a)
                          (drop (clip_index (length xs) a) xs)"

text \<open>The tags \<^verbatim>\<open>b'ftyp'\<close>, \<^verbatim>\<open>b'moov'\<close> and \<^verbatim>\<open>b'mdat'\<close>.\<close>

definition ftyp :: bytes where "ftyp = [0x66, 0x74, 0x79, 0x70]"
definition moov :: bytes where "moov = [0x6D, 0x6F, 0x6F, 0x76]"
definition mdat :: bytes where "mdat = [0x6D, 0x64, 0x61, 0x74]"

text \<open>
  \<^verbatim>\<open>struct.unpack('>I', b)[0]\<close>: the big-endian value of exactly four bytes;
  any other length raises \<^verbatim>\<open>struct.error\<close>.
\<close>

definition be_value :: "bytes \<Rightarrow> int" where
  "be_value bs = foldl (\<lambda>acc b. acc * 256 + uint b) 0 bs"

definition unpack_be32 :: "bytes \<Rightarrow> error + int" where
  "unpack_be32 bs = (if length bs = 4 then Inr (be_value bs) else Inl StructError)"

text \<open>\<^verbatim>\<open>x.startswith(p)\<close> is \<^const>\<open>prefix\<close>; \<^verbatim>\<open>p in x\<close> on bytes is a search for a
  contiguous occurrence.\<close>

fun bytes_contains :: "bytes \<Rightarrow> bytes \<Rightarrow> bool" where
  "bytes_contains sub [] = (sub = [])"
| "bytes_contains sub (x # xs) = (prefix sub (x # xs) \<or> bytes_contains sub xs)"

text \<open>
  \<^verbatim>\<open>x.find(sub, start)\<close>: the lowest index at or after \<open>start\<close> where \<open>sub\<close>
  occurs, \<open>-1\<close> when there is none.
\<close>

fun find_at :: "bytes \<Rightarrow> bytes \<Rightarrow> nat \<Rightarrow> int" where
  "find_at sub [] i = (if sub = [] then int i else -1)"
| "find_at sub (x # xs) i = (if prefix sub (x # xs) then int i else find_at sub xs (Suc i))"

definition py_find :: "bytes \<Rightarrow> bytes \<Rightarrow> int \<Rightarrow> int" where
  "py_find xs sub start =
     (let s = (if start < 0 then max (int (length xs) + start) 0 else start)
      in if int (length xs) < s then -1 else find_at sub (drop (nat s) xs) (nat s))"

section \<open>The boundary parser: \<^verbatim>\<open>parse_mp4_atoms\<close>\<close>

text \<open>
  An atom is the tuple \<^verbatim>\<open>(atom_type, pos, atom_size)\<close>. The \<^verbatim>\<open>while\<close> loop of
  \<^verbatim>\<open>parse_mp4_atoms\<close> is the recursion \<open>atoms_loop\<close> on the cursor \<open>pos\<close> and the
  list built so far; a \<^verbatim>\<open>struct.error\<close> leaves the function as \<open>Inl\<close>.
\<close>

type_synonym atom = "bytes \<times> int \<times> int"

definition atom_type :: "atom \<Rightarrow> bytes" where "atom_type a = fst a"
definition atom_pos :: "atom \<Rightarrow> int" where "atom_pos a = fst (snd a)"
definition atom_size :: "atom \<Rightarrow> int" where "atom_size a = snd (snd a)"

function atoms_loop :: "bytes \<Rightarrow> int \<Rightarrow> atom list \<Rightarrow> error + atom list" where
  "atoms_loop data pos atoms =
     (if pos < int (length data) - 8 then
        if pos + 8 > int (length data) then Inr atoms
        else
          (case unpack_be32 (py_slice data pos (pos + 4)) of
             Inl e \<Rightarrow> Inl e
           | Inr sz \<Rightarrow>
               if sz < 8 \<or> sz > int (length data) - pos then Inr atoms
               else atoms_loop data (pos + sz)
                      (atoms @ [(py_slice data (pos + 4) (pos + 8), pos, sz)]))
      else Inr atoms)"
  by pat_completeness auto
termination
  by (relation "measure (\<lambda>(data, pos, atoms). nat (int (length data) - pos))") auto

declare atoms_loop.simps [simp del]

definition parse_mp4_atoms :: "bytes \<Rightarrow> int \<Rightarrow> error + atom list" where
  "parse_mp4_atoms data start_pos = atoms_loop data start_pos []"


section \<open>Structured extraction: \<^verbatim>\<open>extract_mp4_video\<close>\<close>

text \<open>
  The \<^verbatim>\<open>for\<close> loop over the atoms keeps the position of the last \<^verbatim>\<open>moov\<close> and of
  the last \<^verbatim>\<open>mdat\<close> atom (\<open>None\<close> while none was seen).
\<close>

definition find_moov_mdat :: "atom list \<Rightarrow> int option \<times> int option" where
  "find_moov_mdat atoms =
     foldl (\<lambda>(moov_pos, mdat_pos) a.
              if atom_type a = moov then (Some (atom_pos a), mdat_pos)
              else if atom_type a = mdat then (moov_pos, Some (atom_pos a))
              else (moov_pos, mdat_pos))
           (None, None) atoms"

text \<open>
  The branch \<^verbatim>\<open>if moov_pos is not None\<close>: the slice up to the end of the last atom,
  returned when \<^verbatim>\<open>video_data.startswith(b'ftyp')\<close>; \<open>None\<close> stands for falling out
  of the branch without a \<^verbatim>\<open>return\<close>.
\<close>

definition moov_path :: "bytes \<Rightarrow> int \<Rightarrow> atom list \<Rightarrow> bytes option" where
  "moov_path data start_pos atoms =
     (case fst (find_moov_mdat atoms) of
        None \<Rightarrow> None
      | Some moov_pos \<Rightarrow>
          (let last_atom = last atoms;
               end_pos = atom_pos last_atom + atom_size last_atom;
               video_data = py_slice data start_pos end_pos
           in if prefix ftyp video_data then Some video_data else None))"

text \<open>The branch \<^verbatim>\<open>if len(data) - start_pos > 1000\<close>: a window of at most 100 MiB.\<close>

definition window_path :: "bytes \<Rightarrow> int \<Rightarrow> bytes option" where
  "window_path data start_pos =
     (if int (length data) - start_pos > 1000 then
        (let end_pos = min (start_pos + 100 * 1024 * 1024) (int (length data));
             video_data = py_slice data start_pos end_pos
         in if bytes_contains moov video_data \<or> bytes_contains mdat video_data
            then Some video_data else None)
      else None)"

text \<open>
  \<^verbatim>\<open>extract_mp4_video\<close> returns \<open>None\<close> for Python's \<^verbatim>\<open>None\<close>; the
  \<^verbatim>\<open>except Exception\<close> handler turns an exception of the parser into \<open>None\<close> too.
\<close>

definition extract_mp4_video :: "bytes \<Rightarrow> int \<Rightarrow> bytes option" where
  "extract_mp4_video data start_pos =
     (case parse_mp4_atoms data start_pos of
        Inl e \<Rightarrow> None
      | Inr atoms \<Rightarrow>
          if atoms = [] then None
          else
            (case moov_path data start_pos atoms of
               Some video_data \<Rightarrow> Some video_data
             | None \<Rightarrow> window_path data start_pos))"

text \<open>
  Control reaches the window branch (the \<^verbatim>\<open>if\<close> after the \<^verbatim>\<open>moov\<close> branch) when the
  parser did not raise, \<^verbatim>\<open>if not atoms: return None\<close> did not return, and the
  \<^verbatim>\<open>moov\<close> branch did not return.
\<close>

definition reaches_window :: "bytes \<Rightarrow> int \<Rightarrow> bool" where
  "reaches_window data start_pos =
     (case parse_mp4_atoms data start_pos of
        Inl e \<Rightarrow> False
      | Inr atoms \<Rightarrow>
          if atoms = [] then False
          else
            (case moov_path data start_pos atoms of
               Some video_data \<Rightarrow> False
             | None \<Rightarrow> True))"

section \<open>The signature scanner: \<^verbatim>\<open>extract_unity_videos\<close>\<close>

text \<open>
  The state of the scan: the two counters, the files written so far (the file
  \<^verbatim>\<open>video_<N>.mp4\<close> is the pair of \<open>N\<close> and its content), and, as a trace, the
  start offsets handed to \<^verbatim>\<open>extract_mp4_video\<close>. Writing a file is taken to succeed.
\<close>

record scan_state =
  extracted_count :: nat
  video_index :: nat
  written :: "(nat \<times> bytes) list"
  probed :: "int list"

definition scan_init :: scan_state where
  "scan_init = \<lparr>extracted_count = 0, video_index = 0, written = [], probed = []\<rparr>"

text \<open>\<^verbatim>\<open>if video_data and len(video_data) > 1000\<close>: write the file, bump the counters.\<close>

definition save_video :: "scan_state \<Rightarrow> bytes option \<Rightarrow> scan_state" where
  "save_video st video_data =
     (case video_data of
        None \<Rightarrow> st
      | Some v \<Rightarrow>
          if v \<noteq> [] \<and> length v > 1000 then
            st\<lparr>written := written st @ [(video_index st, v)],
               extracted_count := extracted_count st + 1,
               video_index := video_index st + 1\<rparr>
          else st)"

function scan_loop :: "bytes \<Rightarrow> int \<Rightarrow> scan_state \<Rightarrow> scan_state" where
  "scan_loop content pos st =
     (let p = py_find content ftyp pos in
      if p = -1 then st
      else if p < 4 then scan_loop content (p + 1) st
      else
        let start_pos = p - 4 in
        if start_pos < 0 then scan_loop content (p + 1) st
        else
          let video_data = extract_mp4_video content start_pos;
              st' = save_video (st\<lparr>probed := probed st @ [start_pos]\<rparr>) video_data
          in scan_loop content (p + 4) st')"
  by pat_completeness auto
termination
proof (relation "measure (\<lambda>(content, pos, st). nat (int (length content) + 1 - pos))")
  show "wf (measure (\<lambda>(content, pos, st). nat (int (length content) + 1 - pos)))" by simp
next
  have find_at_range: "find_at sub ys i \<noteq> -1 \<Longrightarrow>
      int i \<le> find_at sub ys i \<and> find_at sub ys i \<le> int (i + length ys)" for sub ys i
  proof (induction ys arbitrary: i)
    case Nil
    then show ?case by (simp split: if_splits)
  next
    case (Cons y ys)
    show ?case
    proof (cases "prefix sub (y # ys)")
      case True
      then show ?thesis by simp
    next
      case False
      with Cons.prems Cons.IH [of "Suc i"] show ?thesis by simp
    qed
  qed
  have range: "py_find xs sub start \<noteq> -1 \<Longrightarrow>
      start \<le> py_find xs sub start \<and> py_find xs sub start \<le> int (length xs)" for xs sub start
  proof -
    assume f: "py_find xs sub start \<noteq> -1"
    define s where "s = (if start < 0 then max (int (length xs) + start) 0 else start)"
    from f have le: "s \<le> int (length xs)"
      and eq: "py_find xs sub start = find_at sub (drop (nat s) xs) (nat s)"
      by (simp_all add: py_find_def Let_def s_def split: if_splits)
    have "0 \<le> s" "start \<le> s" by (auto simp: s_def)
    with find_at_range [of sub "drop (nat s) xs" "nat s"] f le eq show ?thesis by simp
  qed
  fix content :: bytes and pos :: int and st :: scan_state and p :: int
  assume p: "p = py_find content ftyp pos" and found: "p \<noteq> - 1"
  with range [of content ftyp pos]
  have "pos \<le> p \<and> p \<le> int (length content)" by simp
  then show "((content, p + 1, st), content, pos, st)
      \<in> measure (\<lambda>(content, pos, st). nat (int (length content) + 1 - pos))"
    by simp
  then show "((content, p + 1, st), content, pos, st)
      \<in> measure (\<lambda>(content, pos, st). nat (int (length content) + 1 - pos))" .
  fix st' :: scan_state
  from \<open>pos \<le> p \<and> p \<le> int (length content)\<close>
  show "((content, p + 4, st'), content, pos, st)
      \<in> measure (\<lambda>(content, pos, st). nat (int (length content) + 1 - pos))"
    by simp
qed


declare scan_loop.simps [simp del]

text \<open>
  The argument is the outcome of opening and reading the file; any exception
  makes the function return \<open>0\<close> with nothing written.
\<close>

definition extract_unity_videos :: "error + bytes \<Rightarrow> scan_state" where
  "extract_unity_videos file_read =
     (case file_read of
        Inl e \<Rightarrow> scan_init
      | Inr content \<Rightarrow> scan_loop content 0 scan_init)"

section \<open>The structured path: \<^verbatim>\<open>extract_unitypy_videos\<close>\<close>

text \<open>
  UnityPy is an external library. What the extractor sees of it: a list of
  objects, each with an optional type name, whose \<^verbatim>\<open>read()\<close> raises or yields an
  object with named attributes; an attribute holds bytes, something with a
  \<^verbatim>\<open>read\<close> method (which raises or yields bytes), or anything else.
\<close>

datatype attr_value = BytesVal bytes | StreamVal "error + bytes" | OtherVal

record unity_obj =
  obj_type_name :: "string option"
  obj_read :: "error + (string \<times> attr_value) list"

definition video_attrs :: "string list" where
  "video_attrs = [''m_VideoData'', ''m_MovieData'', ''data'', ''bytes'', ''m_Data'']"

fun probe_attrs :: "(string \<times> attr_value) list \<Rightarrow> string list \<Rightarrow> bytes option" where
  "probe_attrs d [] = None"
| "probe_attrs d (attr # rest) =
     (case map_of d attr of
        None \<Rightarrow> probe_attrs d rest
      | Some (BytesVal b) \<Rightarrow> Some b
      | Some (StreamVal (Inr b)) \<Rightarrow> Some b
      | Some (StreamVal (Inl e)) \<Rightarrow> probe_attrs d rest
      | Some OtherVal \<Rightarrow> probe_attrs d rest)"

text \<open>
  The choice of the extension for a blob: \<open>Some\<close> payload when it is \<^verbatim>\<open>.mp4\<close>
  (and so written), \<open>None\<close> when the blob is too short or is \<^verbatim>\<open>.bin\<close>.
\<close>

definition select_payload :: "bytes \<Rightarrow> bytes option" where
  "select_payload raw_data =
     (if raw_data \<noteq> [] \<and> length raw_data > 1000 then
        if prefix ftyp raw_data then Some raw_data
        else
          (let ftyp_pos = py_find raw_data ftyp 0 in
           if ftyp_pos \<noteq> -1 \<and> ftyp_pos \<ge> 4 then
             (case extract_mp4_video raw_data (ftyp_pos - 4) of
                Some video_data \<Rightarrow> if video_data \<noteq> [] then Some video_data else None
              | None \<Rightarrow> None)
           else None)
      else None)"

definition extract_object :: "unity_obj \<Rightarrow> (string \<times> bytes) option" where
  "extract_object obj =
     (let obj_type = (case obj_type_name obj of Some n \<Rightarrow> n | None \<Rightarrow> ''Unknown'') in
      if obj_type \<notin> set [''VideoClip'', ''MovieTexture''] then None
      else
        (case obj_read obj of
           Inl e \<Rightarrow> None
         | Inr d \<Rightarrow>
             (case probe_attrs d video_attrs of
                None \<Rightarrow> None
              | Some raw_data \<Rightarrow>
                  (case select_payload raw_data of
                     None \<Rightarrow> None
                   | Some payload \<Rightarrow> Some (obj_type, payload)))))"

text \<open>The file \<^verbatim>\<open>unitypy_<type>_<i>.mp4\<close> is the triple of type, index and content.\<close>

record unitypy_state =
  up_count :: nat
  up_written :: "(string \<times> nat \<times> bytes) list"

definition unitypy_init :: unitypy_state where
  "unitypy_init = \<lparr>up_count = 0, up_written = []\<rparr>"

fun objects_loop :: "unity_obj list \<Rightarrow> nat \<Rightarrow> unitypy_state \<Rightarrow> unitypy_state" where
  "objects_loop [] i st = st"
| "objects_loop (obj # objs) i st =
     objects_loop objs (Suc i)
       (case extract_object obj of
          None \<Rightarrow> st
        | Some (obj_type, payload) \<Rightarrow>
            st\<lparr>up_written := up_written st @ [(obj_type, i, payload)],
               up_count := up_count st + 1\<rparr>)"

text \<open>
  The argument is the outcome of importing UnityPy, creating the directory and
  loading the file: the list of objects, or the exception.
\<close>

definition extract_unitypy_videos :: "error + unity_obj list \<Rightarrow> unitypy_state" where
  "extract_unitypy_videos loaded =
     (case loaded of
        Inl e \<Rightarrow> unitypy_init
      | Inr objects \<Rightarrow> objects_loop objects 0 unitypy_init)"

section \<open>The per-file policy of \<^verbatim>\<open>main\<close>\<close>

record file_env =
  unity_load :: "error + unity_obj list"
  raw_read :: "error + bytes"

record file_result =
  extracted :: nat
  structured :: unitypy_state
  scanner :: "scan_state option"

definition process_file :: "file_env \<Rightarrow> file_result" where
  "process_file env =
     (let up = extract_unitypy_videos (unity_load env) in
      if up_count up = 0 then
        (let sc = extract_unity_videos (raw_read env)
         in \<lparr>extracted = extracted_count sc, structured = up, scanner = Some sc\<rparr>)
      else \<lparr>extracted = up_count up, structured = up, scanner = None\<rparr>)"

definition main_total :: "file_env list \<Rightarrow> nat" where
  "main_total files = foldl (\<lambda>total_extracted env. total_extracted + extracted (process_file env)) 0 files"

text \<open>Every file put on disk while one input file is processed.\<close>

definition files_written :: "file_result \<Rightarrow> bytes list" where
  "files_written r =
     map (\<lambda>(obj_type, i, payload). payload) (up_written (structured r)) @
     (case scanner r of None \<Rightarrow> [] | Some sc \<Rightarrow> map snd (written sc))"

section \<open>Notions used in the properties\<close>

text \<open>
  The shape of a walk that starts at \<open>pos\<close> in a buffer of length \<open>n\<close>: every atom
  begins where the one before it ends, is at least 8 long and ends inside the buffer.
\<close>

fun atoms_chain :: "int \<Rightarrow> int \<Rightarrow> atom list \<Rightarrow> bool" where
  "atoms_chain n pos [] = True"
| "atoms_chain n pos (a # as) =
     (atom_pos a = pos \<and> 8 \<le> atom_size a \<and> pos + atom_size a \<le> n \<and>
      atoms_chain n (pos + atom_size a) as)"

text \<open>The slice that the \<^verbatim>\<open>moov\<close> branch takes: from the start to the end of the last atom.\<close>

definition structural_slice :: "bytes \<Rightarrow> int \<Rightarrow> atom list \<Rightarrow> bytes" where
  "structural_slice data s atoms = py_slice data s (atom_pos (last atoms) + atom_size (last atoms))"

text \<open>The signature \<^verbatim>\<open>b'ftyp'\<close> occurs in the buffer at offset \<open>p\<close>.\<close>

definition occurs_at :: "bytes \<Rightarrow> nat \<Rightarrow> bool" where
  "occurs_at content p = prefix ftyp (drop p content)"

text \<open>
  The buffers of the round-trip property, following the words of the specification:
  a header of a 4-byte size field and the tag \<^verbatim>\<open>ftyp\<close>, where the size field holds
  the total length of the buffer, followed by a \<^verbatim>\<open>moov\<close> record and an \<^verbatim>\<open>mdat\<close>
  record; a record carries its own length in its first four bytes and its tag in
  the next four.
\<close>

definition is_record :: "bytes \<Rightarrow> bytes \<Rightarrow> bool" where
  "is_record tag r = (8 \<le> length r \<and> be_value (take 4 r) = int (length r) \<and> take 4 (drop 4 r) = tag)"

definition roundtrip_buffer :: "bytes \<Rightarrow> bytes \<Rightarrow> bytes \<Rightarrow> bytes" where
  "roundtrip_buffer size_field moov_rec mdat_rec = size_field @ ftyp @ moov_rec @ mdat_rec"

definition valid_roundtrip :: "bytes \<Rightarrow> bytes \<Rightarrow> bytes \<Rightarrow> bool" where
  "valid_roundtrip size_field moov_rec mdat_rec =
     (length size_field = 4 \<and>
      be_value size_field = int (length (roundtrip_buffer size_field moov_rec mdat_rec)) \<and>
      is_record moov moov_rec \<and> is_record mdat mdat_rec)"

section \<open>Sample buffers\<close>

text \<open>A buffer that is one 8-byte record of type \<^verbatim>\<open>free\<close> and nothing else.\<close>

definition free8 :: bytes where
  "free8 = [0, 0, 0, 8, 0x66, 0x72, 0x65, 0x65]"

text \<open>A \<^verbatim>\<open>free\<close> record of 8 bytes, then an \<^verbatim>\<open>mdat\<close> record of 9 bytes.\<close>

definition two_records :: bytes where
  "two_records = [0, 0, 0, 8, 0x66, 0x72, 0x65, 0x65, 0, 0, 0, 9, 0x6D, 0x64, 0x61, 0x74, 0xAA]"

definition two_atoms :: "atom list" where
  "two_atoms = [([0x66, 0x72, 0x65, 0x65], 0, 8), (mdat, 8, 9)]"

text \<open>
  One \<^verbatim>\<open>mdat\<close> record filling a buffer of exactly 1000 bytes, and of 1001 bytes;
  one \<^verbatim>\<open>moov\<close> record filling a buffer of 1001 bytes.
\<close>

definition mdat1000 :: bytes where
  "mdat1000 = [0, 0, 3, 0xE8] @ mdat @ replicate 992 0"

definition mdat1001 :: bytes where
  "mdat1001 = [0, 0, 3, 0xE9] @ mdat @ replicate 993 0"

definition moov1001 :: bytes where
  "moov1001 = [0, 0, 3, 0xE9] @ moov @ replicate 993 0"

text \<open>
  A buffer whose first four bytes are \<^verbatim>\<open>b'ftyp'\<close>, read by the parser as the size
  1718909296 of a record of type \<^verbatim>\<open>moov\<close> that fills the buffer.
\<close>

definition ftyp_sized_moov :: bytes where
  "ftyp_sized_moov = ftyp @ moov @ replicate 1718909288 0"

text \<open>A file with an 8-byte \<^verbatim>\<open>ftyp\<close> record, then a \<^verbatim>\<open>moov\<close> record of 9 bytes.\<close>

definition small_mp4 :: bytes where
  "small_mp4 = [0, 0, 0, 8] @ ftyp @ [0, 0, 0, 9] @ moov @ [0]"

text \<open>Two round-trip buffers, of 24 and of 1008 bytes.\<close>

definition rt24 :: bytes where
  "rt24 = roundtrip_buffer [0, 0, 0, 24] ([0, 0, 0, 8] @ moov) ([0, 0, 0, 8] @ mdat)"

definition rt1008 :: bytes where
  "rt1008 = roundtrip_buffer [0, 0, 3, 0xF0] ([0, 0, 0, 8] @ moov) ([0, 0, 3, 0xE0] @ mdat @ replicate 984 0)"

text \<open>A buffer with the signature at offset 1 and at offset 9.\<close>

definition scan_sample :: bytes where
  "scan_sample = [0] @ ftyp @ [0, 0, 0, 0] @ ftyp @ [0]"

text \<open>
  A blob of 1001 bytes that begins with \<^verbatim>\<open>b'ftyp'\<close>, a \<^verbatim>\<open>VideoClip\<close> object holding
  it, a file that UnityPy cannot load, and a file with that one object.
\<close>

definition ftyp_blob :: bytes where
  "ftyp_blob = ftyp @ replicate 997 0"

definition video_clip :: unity_obj where
  "video_clip = \<lparr>obj_type_name = Some ''VideoClip'',
                 obj_read = Inr [(''m_VideoData'', BytesVal ftyp_blob)]\<rparr>"

definition env_unloadable :: file_env where
  "env_unloadable = \<lparr>unity_load = Inl LoadError, raw_read = Inr scan_sample\<rparr>"

definition env_with_clip :: file_env where
  "env_with_clip = \<lparr>unity_load = Inr [video_clip], raw_read = Inr scan_sample\<rparr>"

section \<open>Properties of the boundary parser\<close>


lemma py_slice_nonneg:
  "0 \<le> a \<Longrightarrow> a \<le> b \<Longrightarrow> b \<le> int (length xs) \<Longrightarrow>
   py_slice xs a b = take (nat (b - a)) (drop (nat a) xs)"
  by (simp add: py_slice_def clip_index_def min_def nat_diff_distrib)

lemma length_py_slice_nonneg:
  "0 \<le> a \<Longrightarrow> a \<le> b \<Longrightarrow> b \<le> int (length xs) \<Longrightarrow> length (py_slice xs a b) = nat (b - a)"
  by (simp add: py_slice_nonneg)

lemma atoms_loop_returns:
  "0 \<le> pos \<Longrightarrow> \<exists>res. atoms_loop data pos acc = Inr res"
proof (induction data pos acc rule: atoms_loop.induct)
  case (1 data pos atoms)
  show ?case
  proof (cases "pos < int (length data) - 8")
    case False
    then show ?thesis by (simp add: atoms_loop.simps [of data pos atoms])
  next
    case True
    with "1.prems" have len: "length (py_slice data pos (pos + 4)) = 4"
      by (simp add: length_py_slice_nonneg)
    then obtain sz where sz: "unpack_be32 (py_slice data pos (pos + 4)) = Inr sz"
      by (simp add: unpack_be32_def)
    show ?thesis
    proof (cases "sz < 8 \<or> sz > int (length data) - pos")
      case True
      with sz show ?thesis by (simp add: atoms_loop.simps [of data pos atoms])
    next
      case False
      with True sz "1.prems" "1.IH" [of sz] show ?thesis
        by (simp add: atoms_loop.simps [of data pos atoms])
    qed
  qed
qed

lemma atoms_loop_chain:
  "atoms_loop data pos acc = Inr res \<Longrightarrow>
   \<exists>new. res = acc @ new \<and> atoms_chain (int (length data)) pos new"
proof (induction data pos acc arbitrary: res rule: atoms_loop.induct)
  case (1 data pos atoms)
  show ?case
  proof (cases "pos < int (length data) - 8")
    case False
    with "1.prems" show ?thesis by (simp add: atoms_loop.simps [of data pos atoms])
  next
    case room: True
    show ?thesis
    proof (cases "unpack_be32 (py_slice data pos (pos + 4))")
      case (Inl e)
      with room "1.prems" show ?thesis by (simp add: atoms_loop.simps [of data pos atoms])
    next
      case (Inr sz)
      show ?thesis
      proof (cases "sz < 8 \<or> sz > int (length data) - pos")
        case True
        with room Inr "1.prems" show ?thesis by (simp add: atoms_loop.simps [of data pos atoms])
      next
        case good: False
        let ?a = "(py_slice data (pos + 4) (pos + 8), pos, sz)"
        from good room Inr "1.prems"
        have "atoms_loop data (pos + sz) (atoms @ [?a]) = Inr res"
          by (simp add: atoms_loop.simps [of data pos atoms])
        with "1.IH" [OF room _ Inr good] room
        obtain new where "res = (atoms @ [?a]) @ new"
          and "atoms_chain (int (length data)) (pos + sz) new"
          by auto
        with good have "res = atoms @ (?a # new) \<and> atoms_chain (int (length data)) pos (?a # new)"
          by (simp add: atom_pos_def atom_size_def)
        then show ?thesis by blast
      qed
    qed
  qed
qed


lemma atoms_chain_all:
  "atoms_chain n pos as \<Longrightarrow> a \<in> set as \<Longrightarrow>
   8 \<le> atom_size a \<and> pos \<le> atom_pos a \<and> atom_pos a + atom_size a \<le> n"
  by (induction as arbitrary: pos) fastforce+

lemma atoms_chain_consecutive:
  "atoms_chain n pos as \<Longrightarrow> Suc i < length as \<Longrightarrow>
   atom_pos (as ! Suc i) = atom_pos (as ! i) + atom_size (as ! i)"
proof (induction as arbitrary: pos i)
  case Nil
  then show ?case by simp
next
  case (Cons a as)
  show ?case
  proof (cases i)
    case 0
    with Cons.prems show ?thesis by (cases as) auto
  next
    case (Suc j)
    with Cons.prems Cons.IH [of "pos + atom_size a" j] show ?thesis by simp
  qed
qed

lemma atoms_chain_last:
  "atoms_chain n pos as \<Longrightarrow> as \<noteq> [] \<Longrightarrow>
   atom_pos (hd as) = pos \<and>
   pos + 8 * int (length as) \<le> atom_pos (last as) + atom_size (last as) \<and>
   pos + atom_size (hd as) \<le> atom_pos (last as) + atom_size (last as) \<and>
   atom_pos (last as) + atom_size (last as) \<le> n"
proof (induction as arbitrary: pos)
  case Nil
  then show ?case by simp
next
  case (Cons a as)
  show ?case
  proof (cases "as = []")
    case True
    with Cons.prems show ?thesis by simp
  next
    case False
    with Cons.prems Cons.IH [of "pos + atom_size a"] show ?thesis by simp
  qed
qed

lemma atoms_loop_stop:
  "\<not> pos < int (length data) - 8 \<Longrightarrow> atoms_loop data pos acc = Inr acc"
  by (simp add: atoms_loop.simps [of data pos acc])

lemma atoms_loop_step:
  assumes "0 \<le> pos" and "pos < int (length data) - 8"
    and "8 \<le> be_value (py_slice data pos (pos + 4))"
    and "be_value (py_slice data pos (pos + 4)) \<le> int (length data) - pos"
  shows "atoms_loop data pos acc =
         atoms_loop data (pos + be_value (py_slice data pos (pos + 4)))
           (acc @ [(py_slice data (pos + 4) (pos + 8), pos, be_value (py_slice data pos (pos + 4)))])"
proof -
  from assms(1,2) have "length (py_slice data pos (pos + 4)) = 4"
    by (simp add: length_py_slice_nonneg)
  then have "unpack_be32 (py_slice data pos (pos + 4)) = Inr (be_value (py_slice data pos (pos + 4)))"
    by (simp add: unpack_be32_def)
  with assms show ?thesis
    by (simp add: atoms_loop.simps [of data pos acc])
qed

lemma atoms_loop_malformed:
  assumes "0 \<le> pos" and "pos < int (length data) - 8"
    and "be_value (py_slice data pos (pos + 4)) < 8 \<or>
         int (length data) - pos < be_value (py_slice data pos (pos + 4))"
  shows "atoms_loop data pos acc = Inr acc"
proof -
  from assms(1,2) have "length (py_slice data pos (pos + 4)) = 4"
    by (simp add: length_py_slice_nonneg)
  then have "unpack_be32 (py_slice data pos (pos + 4)) = Inr (be_value (py_slice data pos (pos + 4)))"
    by (simp add: unpack_be32_def)
  with assms show ?thesis
    by (simp add: atoms_loop.simps [of data pos acc])
qed

lemma atoms_loop_first:
  "atoms_loop data pos acc = Inr (acc @ a # as) \<Longrightarrow>
   a = (py_slice data (pos + 4) (pos + 8), pos, be_value (py_slice data pos (pos + 4)))"
proof -
  assume r: "atoms_loop data pos acc = Inr (acc @ a # as)"
  show ?thesis
  proof (cases "pos < int (length data) - 8")
    case False
    with r show ?thesis by (simp add: atoms_loop_stop)
  next
    case room: True
    show ?thesis
    proof (cases "unpack_be32 (py_slice data pos (pos + 4))")
      case (Inl e)
      with room r show ?thesis by (simp add: atoms_loop.simps [of data pos acc])
    next
      case (Inr sz)
      then have sz: "sz = be_value (py_slice data pos (pos + 4))"
        by (auto simp: unpack_be32_def split: if_splits)
      show ?thesis
      proof (cases "sz < 8 \<or> sz > int (length data) - pos")
        case True
        with room Inr r show ?thesis by (simp add: atoms_loop.simps [of data pos acc])
      next
        case good: False
        let ?a = "(py_slice data (pos + 4) (pos + 8), pos, sz)"
        from good room Inr r
        have "atoms_loop data (pos + sz) (acc @ [?a]) = Inr (acc @ a # as)"
          by (simp add: atoms_loop.simps [of data pos acc])
        from atoms_loop_chain [OF this] obtain new where "acc @ a # as = (acc @ [?a]) @ new"
          by blast
        then have "a = ?a" by simp
        with sz show ?thesis by simp
      qed
    qed
  qed
qed

lemma parse_two_records: "parse_mp4_atoms two_records 0 = Inr two_atoms"
  by (simp add: parse_mp4_atoms_def two_records_def two_atoms_def mdat_def atoms_loop.simps
      py_slice_def clip_index_def be_value_def unpack_be32_def)

text \<open>
  Claim C6. From a start offset \<open>s \<ge> 0\<close> the parser returns a list of atoms, and
  whenever it returns one (from any start), every atom \<open>(type, offset, length)\<close> has
  \<open>length \<ge> 8\<close> and \<open>offset + length \<le> len(B)\<close>, each atom starts where the one
  before it ends, and the end of the last atom is at most \<open>len(B)\<close>.
\<close>

theorem parse_records_invariant:
  "(0 \<le> s \<longrightarrow> (\<exists>atoms. parse_mp4_atoms B s = Inr atoms)) \<and>
   (\<forall>atoms. parse_mp4_atoms B s = Inr atoms \<longrightarrow>
      (\<forall>a \<in> set atoms. 8 \<le> atom_size a \<and> atom_pos a + atom_size a \<le> int (length B)) \<and>
      (\<forall>i. Suc i < length atoms \<longrightarrow>
           atom_pos (atoms ! Suc i) = atom_pos (atoms ! i) + atom_size (atoms ! i)) \<and>
      (atoms \<noteq> [] \<longrightarrow> atom_pos (last atoms) + atom_size (last atoms) \<le> int (length B)))"
proof (intro conjI allI impI)
  assume "0 \<le> s"
  then show "\<exists>atoms. parse_mp4_atoms B s = Inr atoms"
    unfolding parse_mp4_atoms_def by (rule atoms_loop_returns)
next
  fix atoms
  assume "parse_mp4_atoms B s = Inr atoms"
  then have ch: "atoms_chain (int (length B)) s atoms"
    unfolding parse_mp4_atoms_def by (auto dest: atoms_loop_chain)
  show "\<forall>a \<in> set atoms. 8 \<le> atom_size a \<and> atom_pos a + atom_size a \<le> int (length B)"
    using atoms_chain_all [OF ch] by blast
  show "atom_pos (atoms ! Suc i) = atom_pos (atoms ! i) + atom_size (atoms ! i)"
    if "Suc i < length atoms" for i
    using atoms_chain_consecutive [OF ch that] .
  show "atom_pos (last atoms) + atom_size (last atoms) \<le> int (length B)" if "atoms \<noteq> []"
    using atoms_chain_last [OF ch that] by simp
qed

theorem parse_records_invariant_witness:
  "parse_mp4_atoms two_records 0 = Inr two_atoms \<and> two_atoms \<noteq> [] \<and> Suc 0 < length two_atoms \<and>
   list_all (\<lambda>a. 8 \<le> atom_size a \<and> atom_pos a + atom_size a \<le> int (length two_records)) two_atoms \<and>
   atom_pos (two_atoms ! Suc 0) = atom_pos (two_atoms ! 0) + atom_size (two_atoms ! 0) \<and>
   atom_pos (last two_atoms) + atom_size (last two_atoms) \<le> int (length two_records)"
proof -
  have ne: "two_atoms \<noteq> []" and len: "Suc 0 < length two_atoms"
    by (simp_all add: two_atoms_def)
  from parse_records_invariant [of 0 two_records] parse_two_records ne len
  show ?thesis unfolding list_all_iff by blast
qed

text \<open>
  Claim C7. The parser is total: the recursion \<open>atoms_loop\<close> terminates (its
  termination proof is the cursor argument: the cursor grows and stays below the
  length of the buffer). For every buffer and start it returns the empty list
  when \<open>len(B) - s < 8\<close>; from every start offset \<open>s \<ge> 0\<close> it returns a list and
  raises nothing, every atom in the list is at least 8 long, and so the list has
  at most \<open>(len(B) - s) / 8\<close> atoms.
\<close>

theorem parse_total:
  "(int (length B) - s < 8 \<longrightarrow> parse_mp4_atoms B s = Inr []) \<and>
   (0 \<le> s \<longrightarrow>
      (\<exists>atoms. parse_mp4_atoms B s = Inr atoms \<and>
         (\<forall>a \<in> set atoms. 8 \<le> atom_size a) \<and>
         (atoms \<noteq> [] \<longrightarrow> 8 * int (length atoms) \<le> int (length B) - s)))"
proof (intro conjI impI)
  assume "int (length B) - s < 8"
  then show "parse_mp4_atoms B s = Inr []"
    unfolding parse_mp4_atoms_def by (simp add: atoms_loop_stop)
next
  assume "0 \<le> s"
  from atoms_loop_returns [OF this] obtain atoms where r: "parse_mp4_atoms B s = Inr atoms"
    unfolding parse_mp4_atoms_def by blast
  then have ch: "atoms_chain (int (length B)) s atoms"
    unfolding parse_mp4_atoms_def by (auto dest: atoms_loop_chain)
  have "\<forall>a \<in> set atoms. 8 \<le> atom_size a"
    using atoms_chain_all [OF ch] by blast
  moreover have "8 * int (length atoms) \<le> int (length B) - s" if "atoms \<noteq> []"
    using atoms_chain_last [OF ch that] by linarith
  ultimately show "\<exists>atoms. parse_mp4_atoms B s = Inr atoms \<and>
         (\<forall>a \<in> set atoms. 8 \<le> atom_size a) \<and>
         (atoms \<noteq> [] \<longrightarrow> 8 * int (length atoms) \<le> int (length B) - s)"
    using r by blast
qed

theorem parse_total_witness:
  "int (length two_records) - 12 < 8 \<and> parse_mp4_atoms two_records 12 = Inr [] \<and>
   (0::int) \<le> 0 \<and> parse_mp4_atoms two_records 0 = Inr two_atoms \<and>
   8 * int (length two_atoms) \<le> int (length two_records) - 0"
proof -
  have short: "int (length two_records) - 12 < 8" by (simp add: two_records_def)
  have ne: "two_atoms \<noteq> []" by (simp add: two_atoms_def)
  from parse_total [of two_records 12] short
  have "parse_mp4_atoms two_records 12 = Inr []" by simp
  moreover from parse_total [of two_records 0] parse_two_records ne
  have "8 * int (length two_atoms) \<le> int (length two_records) - 0" by auto
  ultimately show ?thesis using short parse_two_records by simp
qed

text \<open>
  A negative start is not an offset: Python takes the slice from the end of the
  buffer, and \<^verbatim>\<open>struct.unpack\<close> can raise on what it gets; \<^verbatim>\<open>extract_mp4_video\<close>
  catches the exception. Both callers pass \<open>ftyp_pos - 4\<close> with \<open>ftyp_pos \<ge> 4\<close>.
\<close>

lemma parse_negative_start_raises: "parse_mp4_atoms (replicate 20 0) (- 2) = Inl StructError"
  by (simp add: parse_mp4_atoms_def atoms_loop.simps py_slice_def clip_index_def unpack_be32_def)

text \<open>
  Claim C3. The claim says that a record is appended whenever at least 8 bytes
  remain and \<open>8 \<le> size \<le> len(B) - cursor\<close>. The loop guard
  \<^verbatim>\<open>pos < len(data) - 8\<close> is strict, so the walk stops when exactly 8 bytes remain:
  on the buffer \<open>free8\<close>, whose 8 bytes are one well-formed record of size 8, the
  parser returns the empty list.
\<close>

theorem parse_drops_record_in_last_8_bytes:
  "(0::int) + 8 \<le> int (length free8) \<and>
   unpack_be32 (py_slice free8 0 4) = Inr 8 \<and>
   (8::int) \<le> int (length free8) - 0 \<and>
   parse_mp4_atoms free8 0 = Inr []"
  by (simp add: free8_def parse_mp4_atoms_def atoms_loop_stop py_slice_def clip_index_def
      unpack_be32_def be_value_def)

text \<open>The same on every buffer: a cursor 8 bytes before the end ends the walk.\<close>

lemma atoms_loop_last_8_bytes:
  "pos + 8 = int (length data) \<Longrightarrow> atoms_loop data pos acc = Inr acc"
  by (simp add: atoms_loop_stop)

text \<open>With more than 8 bytes left, the two stop conditions of the walk are the only ones.\<close>

lemma atoms_loop_appends:
  assumes "0 \<le> pos" and "pos + 8 < int (length data)"
    and "unpack_be32 (py_slice data pos (pos + 4)) = Inr sz"
    and "8 \<le> sz" and "sz \<le> int (length data) - pos"
  shows "atoms_loop data pos acc =
         atoms_loop data (pos + sz) (acc @ [(py_slice data (pos + 4) (pos + 8), pos, sz)])"
  using assms by (simp add: atoms_loop.simps [of data pos acc])

section \<open>Properties of the structured extraction\<close>

lemma bytes_contains_sublist: "bytes_contains sub xs = sublist sub xs"
  by (induction xs) (simp_all add: sublist_Cons_right)

lemma bytes_contains_append: "bytes_contains sub (pre @ sub @ post)"
  by (simp add: bytes_contains_sublist)

lemma moov_seen_foldl:
  "fst (foldl (\<lambda>(moov_pos, mdat_pos) a.
              if atom_type a = moov then (Some (atom_pos a), mdat_pos)
              else if atom_type a = mdat then (moov_pos, Some (atom_pos a))
              else (moov_pos, mdat_pos)) (m, d) atoms) \<noteq> None
   \<longleftrightarrow> m \<noteq> None \<or> (\<exists>a \<in> set atoms. atom_type a = moov)"
  by (induction atoms arbitrary: m d) auto

lemma moov_seen: "fst (find_moov_mdat atoms) \<noteq> None \<longleftrightarrow> (\<exists>a \<in> set atoms. atom_type a = moov)"
  unfolding find_moov_mdat_def using moov_seen_foldl [of None None atoms] by blast

lemma tags_differ:
  "ftyp \<noteq> moov" "ftyp \<noteq> mdat" "moov \<noteq> mdat" "moov \<noteq> ftyp" "mdat \<noteq> ftyp" "mdat \<noteq> moov"
  by (simp_all add: ftyp_def moov_def mdat_def)

lemma py_slice_whole: "py_slice xs 0 (int (length xs)) = xs"
  by (simp add: py_slice_def clip_index_def)

lemma be_value_ftyp: "be_value ftyp = 1718909296"
  by (simp add: be_value_def ftyp_def)

lemma len_mdat1000: "length mdat1000 = 1000"
  by (simp add: mdat1000_def mdat_def)

lemma parse_mdat1000: "parse_mp4_atoms mdat1000 0 = Inr [(mdat, 0, 1000)]"
proof -
  have s: "py_slice mdat1000 0 4 = [0, 0, 3, 0xE8]" "py_slice mdat1000 4 8 = mdat"
    by (simp_all add: py_slice_def clip_index_def mdat1000_def mdat_def)
  show ?thesis
    unfolding parse_mp4_atoms_def
    by (subst atoms_loop_step) (simp_all add: len_mdat1000 s be_value_def atoms_loop_stop)
qed

lemma len_mdat1001: "length mdat1001 = 1001"
  by (simp add: mdat1001_def mdat_def)

lemma len_moov1001: "length moov1001 = 1001"
  by (simp add: moov1001_def moov_def)

lemma parse_mdat1001: "parse_mp4_atoms mdat1001 0 = Inr [(mdat, 0, 1001)]"
proof -
  have s: "py_slice mdat1001 0 4 = [0, 0, 3, 0xE9]" "py_slice mdat1001 4 8 = mdat"
    by (simp_all add: py_slice_def clip_index_def mdat1001_def mdat_def)
  show ?thesis
    unfolding parse_mp4_atoms_def
    by (subst atoms_loop_step) (simp_all add: len_mdat1001 s be_value_def atoms_loop_stop)
qed

lemma parse_moov1001: "parse_mp4_atoms moov1001 0 = Inr [(moov, 0, 1001)]"
proof -
  have s: "py_slice moov1001 0 4 = [0, 0, 3, 0xE9]" "py_slice moov1001 4 8 = moov"
    by (simp_all add: py_slice_def clip_index_def moov1001_def moov_def)
  show ?thesis
    unfolding parse_mp4_atoms_def
    by (subst atoms_loop_step) (simp_all add: len_moov1001 s be_value_def atoms_loop_stop)
qed

text \<open>
  Claim C4, amended. When the parser returns a non-empty list without a \<^verbatim>\<open>moov\<close>
  atom, more than 1000 bytes remain from the start, and the window of at most
  100 MiB contains \<^verbatim>\<open>b'moov'\<close> or \<^verbatim>\<open>b'mdat'\<close>, the result is exactly that window.
\<close>

theorem windowed_fallback:
  assumes "parse_mp4_atoms data s = Inr atoms" and "atoms \<noteq> []"
    and "\<forall>a \<in> set atoms. atom_type a \<noteq> moov"
    and "int (length data) - s > 1000"
    and "bytes_contains moov (py_slice data s (min (s + 104857600) (int (length data)))) \<or>
         bytes_contains mdat (py_slice data s (min (s + 104857600) (int (length data))))"
  shows "extract_mp4_video data s = Some (py_slice data s (min (s + 104857600) (int (length data))))"
proof -
  from assms(3) have "fst (find_moov_mdat atoms) = None"
    using moov_seen [of atoms] by blast
  then have "moov_path data s atoms = None"
    by (simp add: moov_path_def)
  with assms(1,2) have "extract_mp4_video data s = window_path data s"
    by (simp add: extract_mp4_video_def)
  with assms(4,5) show ?thesis
    by (simp add: window_path_def Let_def)
qed

theorem windowed_fallback_witness:
  "parse_mp4_atoms mdat1001 0 = Inr [(mdat, 0, 1001)] \<and>
   int (length mdat1001) - 0 > 1000 \<and>
   bytes_contains mdat mdat1001 \<and>
   extract_mp4_video mdat1001 0 = Some mdat1001"
proof -
  have w: "py_slice mdat1001 0 (min (0 + 104857600) (int (length mdat1001))) = mdat1001"
    using py_slice_whole [of mdat1001] by (simp add: len_mdat1001)
  have c: "bytes_contains mdat mdat1001"
    unfolding mdat1001_def by (rule bytes_contains_append)
  have nm: "\<forall>a \<in> set [(mdat, 0::int, 1001::int)]. atom_type a \<noteq> moov"
    by (simp add: atom_type_def tags_differ)
  have big: "int (length mdat1001) - 0 > 1000" by (simp add: len_mdat1001)
  from windowed_fallback [OF parse_mdat1001 _ nm big] w c
  have "extract_mp4_video mdat1001 0 = Some mdat1001" by simp
  with c big show ?thesis by (simp add: parse_mdat1001)
qed

text \<open>
  The claim as stated, with ``at least 1000 bytes'', fails when exactly 1000 bytes
  remain: the guard is \<^verbatim>\<open>len(data) - start_pos > 1000\<close>.
\<close>

theorem windowed_fallback_exactly_1000_counterexample:
  "parse_mp4_atoms mdat1000 0 = Inr [(mdat, 0, 1000)] \<and>
   atom_type (mdat, 0, 1000) \<noteq> moov \<and>
   int (length mdat1000) - 0 \<ge> 1000 \<and>
   bytes_contains mdat (py_slice mdat1000 0 (min (0 + 104857600) (int (length mdat1000)))) \<and>
   extract_mp4_video mdat1000 0 = None"
proof -
  have w: "py_slice mdat1000 0 (min (0 + 104857600) (int (length mdat1000))) = mdat1000"
    using py_slice_whole [of mdat1000] by (simp add: len_mdat1000)
  have c: "bytes_contains mdat mdat1000"
    unfolding mdat1000_def by (rule bytes_contains_append)
  have m: "moov_path mdat1000 0 [(mdat, 0, 1000)] = None"
    by (simp add: moov_path_def find_moov_mdat_def atom_type_def tags_differ)
  have "extract_mp4_video mdat1000 0 = None"
    by (simp add: extract_mp4_video_def parse_mdat1000 m window_path_def len_mdat1000)
  with w c show ?thesis
    by (simp add: parse_mdat1000 atom_type_def tags_differ len_mdat1000)
qed

lemma len_ftyp_sized_moov: "length ftyp_sized_moov = 1718909296"
  by (simp add: ftyp_sized_moov_def ftyp_def moov_def)

lemma parse_ftyp_sized_moov:
  "parse_mp4_atoms ftyp_sized_moov 0 = Inr [(moov, 0, 1718909296)]"
proof -
  have s: "py_slice ftyp_sized_moov 0 4 = ftyp" "py_slice ftyp_sized_moov 4 8 = moov"
    by (simp_all add: py_slice_def clip_index_def ftyp_sized_moov_def ftyp_def moov_def)
  show ?thesis
    unfolding parse_mp4_atoms_def
    by (subst atoms_loop_step)
      (simp_all add: len_ftyp_sized_moov s be_value_ftyp atoms_loop_stop)
qed

lemma moov_path_cases:
  "moov_path data s atoms =
     (if (\<exists>a \<in> set atoms. atom_type a = moov) \<and> prefix ftyp (structural_slice data s atoms)
      then Some (structural_slice data s atoms) else None)"
proof (cases "\<exists>a \<in> set atoms. atom_type a = moov")
  case True
  then obtain p where "fst (find_moov_mdat atoms) = Some p"
    using moov_seen [of atoms] by auto
  with True show ?thesis
    by (simp add: moov_path_def structural_slice_def Let_def)
next
  case False
  then have "fst (find_moov_mdat atoms) = None"
    using moov_seen [of atoms] by blast
  with False show ?thesis
    by (simp add: moov_path_def)
qed

text \<open>
  Claim C5, amended. The window branch is reached only after a non-empty parse in
  which no \<^verbatim>\<open>moov\<close> atom was found or one was found and the structural slice failed
  the \<^verbatim>\<open>startswith\<close> check; once reached, its result is the result. Whenever a
  \<^verbatim>\<open>moov\<close> atom is present and the structural slice passes the check, the window
  branch is not reached and the result is the structural slice.
\<close>

theorem window_attempted_cases:
  "(reaches_window data s \<longleftrightarrow>
      (\<exists>atoms. parse_mp4_atoms data s = Inr atoms \<and> atoms \<noteq> [] \<and>
         ((\<forall>a \<in> set atoms. atom_type a \<noteq> moov) \<or>
          \<not> prefix ftyp (structural_slice data s atoms)))) \<and>
   (reaches_window data s \<longrightarrow> extract_mp4_video data s = window_path data s) \<and>
   (\<forall>atoms. parse_mp4_atoms data s = Inr atoms \<and> (\<exists>a \<in> set atoms. atom_type a = moov) \<and>
       prefix ftyp (structural_slice data s atoms) \<longrightarrow>
       \<not> reaches_window data s \<and>
       extract_mp4_video data s = Some (structural_slice data s atoms))"
proof (cases "parse_mp4_atoms data s")
  case (Inl e)
  then show ?thesis by (simp add: reaches_window_def)
next
  case (Inr atoms)
  show ?thesis
  proof (cases "atoms = []")
    case True
    with Inr show ?thesis by (simp add: reaches_window_def)
  next
    case False
    with Inr have r: "reaches_window data s \<longleftrightarrow> moov_path data s atoms = None"
      by (simp add: reaches_window_def split: option.splits)
    from Inr False have e: "extract_mp4_video data s =
        (case moov_path data s atoms of Some v \<Rightarrow> Some v | None \<Rightarrow> window_path data s)"
      by (simp add: extract_mp4_video_def)
    show ?thesis
      using Inr False by (auto simp: r e moov_path_cases)
  qed
qed

theorem window_attempted_cases_witness:
  "reaches_window moov1001 0 \<and>
   extract_mp4_video moov1001 0 = window_path moov1001 0 \<and>
   \<not> reaches_window ftyp_sized_moov 0 \<and>
   extract_mp4_video ftyp_sized_moov 0 = Some (structural_slice ftyp_sized_moov 0 [(moov, 0, 1718909296)])"
proof -
  have sl: "structural_slice moov1001 0 [(moov, 0, 1001)] = moov1001"
    using py_slice_whole [of moov1001]
    by (simp add: structural_slice_def atom_pos_def atom_size_def len_moov1001)
  have np: "\<not> prefix ftyp moov1001"
    by (simp add: moov1001_def ftyp_def)
  have a: "reaches_window moov1001 0"
    using window_attempted_cases [of moov1001 0] by (simp add: parse_moov1001 sl np)
  with window_attempted_cases [of moov1001 0]
  have b: "extract_mp4_video moov1001 0 = window_path moov1001 0" by blast
  have sl2: "structural_slice ftyp_sized_moov 0 [(moov, 0, 1718909296)] = ftyp_sized_moov"
    using py_slice_whole [of ftyp_sized_moov]
    by (simp add: structural_slice_def atom_pos_def atom_size_def len_ftyp_sized_moov)
  have pre: "prefix ftyp ftyp_sized_moov"
    by (simp add: ftyp_sized_moov_def)
  have c: "\<not> reaches_window ftyp_sized_moov 0 \<and>
     extract_mp4_video ftyp_sized_moov 0 = Some (structural_slice ftyp_sized_moov 0 [(moov, 0, 1718909296)])"
    using window_attempted_cases [of ftyp_sized_moov 0]
    by (simp add: parse_ftyp_sized_moov sl2 pre atom_type_def)
  from a b c show ?thesis by simp
qed

text \<open>
  The claim as stated fails: with a \<^verbatim>\<open>moov\<close> atom present and the structural
  slice rejected, the window branch is reached and its slice is returned.
\<close>

theorem moov_present_window_used_counterexample:
  "parse_mp4_atoms moov1001 0 = Inr [(moov, 0, 1001)] \<and>
   atom_type (moov, 0, 1001) = moov \<and>
   reaches_window moov1001 0 \<and>
   moov_path moov1001 0 [(moov, 0, 1001)] = None \<and>
   window_path moov1001 0 = Some moov1001 \<and>
   extract_mp4_video moov1001 0 = Some moov1001"
proof -
  have sl: "py_slice moov1001 0 1001 = moov1001"
    using py_slice_whole [of moov1001] by (simp add: len_moov1001)
  have np: "\<not> prefix ftyp moov1001"
    by (simp add: moov1001_def ftyp_def)
  have m: "moov_path moov1001 0 [(moov, 0, 1001)] = None"
    by (simp add: moov_path_def find_moov_mdat_def atom_type_def atom_pos_def atom_size_def sl np)
  have c: "bytes_contains moov moov1001"
    unfolding moov1001_def by (rule bytes_contains_append)
  have w: "window_path moov1001 0 = Some moov1001"
    by (simp add: window_path_def len_moov1001 sl c)
  show ?thesis
    by (simp add: extract_mp4_video_def reaches_window_def parse_moov1001 m w atom_type_def)
qed

text \<open>
  On an empty parse, and when the parser raises, neither branch is reached and
  nothing is found, whatever the window holds.
\<close>

lemma empty_parse_not_found:
  "parse_mp4_atoms data s = Inr [] \<or> parse_mp4_atoms data s = Inl e \<Longrightarrow>
   \<not> reaches_window data s \<and> extract_mp4_video data s = None"
  by (auto simp: reaches_window_def extract_mp4_video_def)

text \<open>
  Claim C1. The claim places the accepted signature at bytes \<open>[4:8)\<close> of the
  slice. The check \<^verbatim>\<open>video_data.startswith(b'ftyp')\<close> reads bytes \<open>[0:4)\<close>, the size
  field: the buffer \<open>ftyp_sized_moov\<close> is accepted on the \<^verbatim>\<open>moov\<close> path although
  bytes \<open>[4:8)\<close> of the slice are \<^verbatim>\<open>b'moov'\<close>.
\<close>

theorem moov_path_accepts_other_tag:
  "parse_mp4_atoms ftyp_sized_moov 0 = Inr [(moov, 0, 1718909296)] \<and>
   extract_mp4_video ftyp_sized_moov 0 = Some ftyp_sized_moov \<and>
   py_slice ftyp_sized_moov 4 8 = moov \<and> moov \<noteq> ftyp"
proof -
  have sl: "py_slice ftyp_sized_moov 0 1718909296 = ftyp_sized_moov"
    using py_slice_whole [of ftyp_sized_moov] by (simp add: len_ftyp_sized_moov)
  have pre: "prefix ftyp ftyp_sized_moov"
    by (simp add: ftyp_sized_moov_def)
  have m: "moov_path ftyp_sized_moov 0 [(moov, 0, 1718909296)] = Some ftyp_sized_moov"
    by (simp add: moov_path_def find_moov_mdat_def atom_type_def atom_pos_def atom_size_def sl pre)
  have t: "py_slice ftyp_sized_moov 4 8 = moov"
    by (simp add: py_slice_def clip_index_def ftyp_sized_moov_def ftyp_def moov_def)
  show ?thesis
    by (simp add: extract_mp4_video_def parse_ftyp_sized_moov m t tags_differ)
qed

text \<open>What the check of the \<^verbatim>\<open>moov\<close> path does test, on every input.\<close>

lemma moov_path_checks_first_four_bytes:
  "moov_path data s atoms = Some v \<Longrightarrow> take 4 v = ftyp"
proof -
  assume "moov_path data s atoms = Some v"
  then have "prefix ftyp v"
    by (auto simp: moov_path_def Let_def split: option.splits if_splits)
  then show ?thesis by (auto simp: prefix_def ftyp_def)
qed

text \<open>
  Conversely a slice that does carry \<^verbatim>\<open>ftyp\<close> at bytes \<open>[4:8)\<close>, after a size field
  of 8, is rejected by the \<^verbatim>\<open>moov\<close> path.
\<close>

lemma moov_path_rejects_ftyp_header:
  "parse_mp4_atoms small_mp4 0 = Inr [(ftyp, 0, 8), (moov, 8, 9)] \<and>
   py_slice small_mp4 4 8 = ftyp \<and>
   moov_path small_mp4 0 [(ftyp, 0, 8), (moov, 8, 9)] = None \<and>
   extract_mp4_video small_mp4 0 = None"
proof -
  have p: "parse_mp4_atoms small_mp4 0 = Inr [(ftyp, 0, 8), (moov, 8, 9)]"
    by (simp add: parse_mp4_atoms_def small_mp4_def ftyp_def moov_def atoms_loop.simps
      py_slice_def clip_index_def be_value_def unpack_be32_def)
  have t: "py_slice small_mp4 4 8 = ftyp"
    by (simp add: py_slice_def clip_index_def small_mp4_def ftyp_def moov_def)
  have len: "length small_mp4 = 17"
    by (simp add: small_mp4_def ftyp_def moov_def)
  have sl: "py_slice small_mp4 0 17 = small_mp4"
    using py_slice_whole [of small_mp4] by (simp add: len)
  have np: "\<not> prefix ftyp small_mp4"
    by (simp add: small_mp4_def ftyp_def)
  have m: "moov_path small_mp4 0 [(ftyp, 0, 8), (moov, 8, 9)] = None"
    by (simp add: moov_path_def find_moov_mdat_def atom_type_def atom_pos_def atom_size_def
        tags_differ sl np)
  have "extract_mp4_video small_mp4 0 = None"
    by (simp add: extract_mp4_video_def p m window_path_def len)
  with p t m show ?thesis by simp
qed

text \<open>Every slice that \<^verbatim>\<open>extract_mp4_video\<close> returns from a start \<open>s \<ge> 0\<close> is long.\<close>

lemma window_path_long:
  assumes "0 \<le> s" and "window_path data s = Some v"
  shows "length v > 1000"
proof -
  let ?e = "min (s + 104857600) (int (length data))"
  from assms(2) have big: "int (length data) - s > 1000" and v: "v = py_slice data s ?e"
    by (auto simp: window_path_def Let_def split: if_splits)
  from big assms(1) have "s \<le> ?e" "?e \<le> int (length data)" by simp_all
  with assms(1) have "length (py_slice data s ?e) = nat (?e - s)"
    by (rule length_py_slice_nonneg)
  with v big show ?thesis by simp
qed

lemma moov_path_long:
  assumes "0 \<le> s" and "parse_mp4_atoms data s = Inr atoms" and "atoms \<noteq> []"
    and "moov_path data s atoms = Some v"
  shows "length v \<ge> 1718909296"
proof -
  let ?e = "atom_pos (last atoms) + atom_size (last atoms)"
  from assms(4) have v: "v = py_slice data s ?e" and pre: "prefix ftyp v"
    by (auto simp: moov_path_def Let_def split: option.splits if_splits)
  from assms(2) have ch: "atoms_chain (int (length data)) s atoms"
    unfolding parse_mp4_atoms_def by (auto dest: atoms_loop_chain)
  from assms(3) obtain a as where atoms: "atoms = a # as" by (cases atoms) auto
  with assms(2) have a: "a = (py_slice data (s + 4) (s + 8), s, be_value (py_slice data s (s + 4)))"
    unfolding parse_mp4_atoms_def using atoms_loop_first [of data s "[]" a as] by simp
  from atoms_chain_last [OF ch assms(3)] atoms
  have e1: "s + atom_size a \<le> ?e" and e2: "?e \<le> int (length data)" by simp_all
  from ch atoms have sz: "8 \<le> atom_size a" by simp
  from assms(1) e1 e2 sz have vt: "v = take (nat (?e - s)) (drop (nat s) data)"
    unfolding v by (intro py_slice_nonneg) simp_all
  from assms(1) e1 e2 sz have hd: "py_slice data s (s + 4) = take 4 (drop (nat s) data)"
    by (subst py_slice_nonneg) simp_all
  from pre have "take 4 v = ftyp"
    by (auto simp: prefix_def ftyp_def)
  moreover from e1 sz have "4 \<le> nat (?e - s)" by simp
  then have "take 4 v = take 4 (drop (nat s) data)"
    unfolding vt by (simp add: min_def)
  ultimately have "atom_size a = 1718909296"
    using a hd by (simp add: atom_size_def be_value_ftyp)
  with e1 e2 assms(1) have "length v = nat (?e - s)" "?e - s \<ge> 1718909296"
    unfolding v by (simp_all add: length_py_slice_nonneg)
  then show ?thesis by simp
qed

lemma extract_mp4_video_long:
  assumes "0 \<le> s" and "extract_mp4_video data s = Some v"
  shows "length v > 1000"
proof -
  from assms(2) obtain atoms where p: "parse_mp4_atoms data s = Inr atoms" and ne: "atoms \<noteq> []"
    and r: "moov_path data s atoms = Some v \<or> window_path data s = Some v"
    by (auto simp: extract_mp4_video_def split: sum.splits if_splits option.splits)
  from r show ?thesis
  proof
    assume "moov_path data s atoms = Some v"
    from moov_path_long [OF assms(1) p ne this] show ?thesis by simp
  next
    assume "window_path data s = Some v"
    from window_path_long [OF assms(1) this] show ?thesis .
  qed
qed

lemma valid_rt24: "valid_roundtrip [0, 0, 0, 24] ([0, 0, 0, 8] @ moov) ([0, 0, 0, 8] @ mdat)"
  by (simp add: valid_roundtrip_def roundtrip_buffer_def is_record_def be_value_def
      ftyp_def moov_def mdat_def)

lemma valid_rt1008:
  "valid_roundtrip [0, 0, 3, 0xF0] ([0, 0, 0, 8] @ moov) ([0, 0, 3, 0xE0] @ mdat @ replicate 984 0)"
  by (simp add: valid_roundtrip_def roundtrip_buffer_def is_record_def be_value_def
      ftyp_def moov_def mdat_def)

lemma parse_roundtrip:
  assumes "valid_roundtrip sf m d" and "8 < length (roundtrip_buffer sf m d)"
  shows "parse_mp4_atoms (roundtrip_buffer sf m d) 0 =
         Inr [(ftyp, 0, int (length (roundtrip_buffer sf m d)))]"
proof -
  let ?B = "roundtrip_buffer sf m d"
  from assms(1) have l4: "length sf = 4" and sz: "be_value sf = int (length ?B)"
    by (simp_all add: valid_roundtrip_def)
  have lf: "length ftyp = 4" by (simp add: ftyp_def)
  from l4 have s1: "py_slice ?B 0 4 = sf"
    by (simp add: py_slice_def clip_index_def roundtrip_buffer_def)
  from l4 lf have s2: "py_slice ?B 4 8 = ftyp"
    by (simp add: py_slice_def clip_index_def roundtrip_buffer_def)
  from assms(2) sz s1 s2 show ?thesis
    unfolding parse_mp4_atoms_def
    by (subst atoms_loop_step) (simp_all add: atoms_loop_stop)
qed

text \<open>
  Claim C2, amended. For a round-trip buffer of more than 1000 and at most
  100 MiB (104857600) bytes, \<^verbatim>\<open>extract_mp4_video(buffer, 0)\<close> returns the buffer,
  byte for byte.
\<close>

theorem roundtrip_in_window:
  assumes "valid_roundtrip sf m d"
    and "1000 < length (roundtrip_buffer sf m d)"
    and "length (roundtrip_buffer sf m d) \<le> 104857600"
  shows "extract_mp4_video (roundtrip_buffer sf m d) 0 = Some (roundtrip_buffer sf m d)"
proof -
  let ?B = "roundtrip_buffer sf m d"
  from assms(2) have p: "parse_mp4_atoms ?B 0 = Inr [(ftyp, 0, int (length ?B))]"
    by (intro parse_roundtrip assms(1)) simp
  have mp: "moov_path ?B 0 [(ftyp, 0, int (length ?B))] = None"
    by (simp add: moov_path_def find_moov_mdat_def atom_type_def tags_differ)
  from assms(1) have "8 \<le> length m" "take 4 (drop 4 m) = moov"
    by (simp_all add: valid_roundtrip_def is_record_def)
  then have "m = take 4 m @ moov @ drop 8 m"
    by (metis append_take_drop_id drop_drop numeral_Bit0 add.commute)
  then have "?B = (sf @ ftyp @ take 4 m) @ moov @ (drop 8 m @ d)"
    unfolding roundtrip_buffer_def by (metis append_assoc)
  then have c: "bytes_contains moov ?B"
    by (metis bytes_contains_append)
  from assms(3) have e: "min (0 + 104857600) (int (length ?B)) = int (length ?B)" by simp
  from assms(2) c have "window_path ?B 0 = Some ?B"
    by (simp add: window_path_def e py_slice_whole del: add_0)
  with p mp show ?thesis
    by (simp add: extract_mp4_video_def)
qed

theorem roundtrip_in_window_witness:
  "valid_roundtrip [0, 0, 3, 0xF0] ([0, 0, 0, 8] @ moov) ([0, 0, 3, 0xE0] @ mdat @ replicate 984 0) \<and>
   1000 < length rt1008 \<and> length rt1008 \<le> 104857600 \<and>
   extract_mp4_video rt1008 0 = Some rt1008"
proof -
  have len: "length rt1008 = 1008"
    by (simp add: rt1008_def roundtrip_buffer_def ftyp_def moov_def mdat_def)
  from roundtrip_in_window [OF valid_rt1008] len valid_rt1008 show ?thesis
    by (simp add: rt1008_def)
qed

text \<open>
  The claim as stated, for every round-trip buffer, fails on the 24-byte one: the
  header record spans the buffer, no \<^verbatim>\<open>moov\<close> atom is seen at the top level, and
  the window needs more than 1000 bytes.
\<close>

theorem roundtrip_small_counterexample:
  "valid_roundtrip [0, 0, 0, 24] ([0, 0, 0, 8] @ moov) ([0, 0, 0, 8] @ mdat) \<and>
   extract_mp4_video rt24 0 = None"
proof -
  have len: "length rt24 = 24"
    by (simp add: rt24_def roundtrip_buffer_def ftyp_def moov_def mdat_def)
  have p: "parse_mp4_atoms rt24 0 = Inr [(ftyp, 0, 24)]"
    using parse_roundtrip [OF valid_rt24] len by (simp add: rt24_def)
  have mp: "moov_path rt24 0 [(ftyp, 0, 24)] = None"
    by (simp add: moov_path_def find_moov_mdat_def atom_type_def tags_differ)
  have "extract_mp4_video rt24 0 = None"
    by (simp add: extract_mp4_video_def p mp window_path_def len)
  with valid_rt24 show ?thesis by simp
qed

lemma length_py_slice_le: "length (py_slice xs a b) \<le> length xs"
  by (simp add: py_slice_def)

text \<open>
  The same holds whatever well-formed size the size field of the header carries,
  for instance the 8 of a header that is a record of its own.
\<close>

lemma roundtrip_any_header_size:
  assumes B: "B = sf @ ftyp @ m @ d" and l4: "length sf = 4"
    and lo: "8 \<le> be_value sf" and hi: "be_value sf \<le> int (length B)"
    and m: "is_record moov m"
    and big: "1000 < length B" and cap: "length B \<le> 104857600"
  shows "extract_mp4_video B 0 = Some B"
proof -
  from l4 have s1: "py_slice B 0 4 = sf"
    by (simp add: py_slice_def clip_index_def B)
  let ?a = "(py_slice B (0 + 4) (0 + 8), 0::int, be_value sf)"
  from big lo hi have "atoms_loop B 0 [] = atoms_loop B (0 + be_value sf) ([] @ [?a])"
    using atoms_loop_step [of 0 B "[]"] by (simp add: s1)
  moreover from lo obtain res where res: "atoms_loop B (0 + be_value sf) ([] @ [?a]) = Inr res"
    using atoms_loop_returns [of "0 + be_value sf" B "[] @ [?a]"] by auto
  moreover from atoms_loop_chain [OF res] have "res \<noteq> []" by auto
  ultimately have p: "parse_mp4_atoms B 0 = Inr res" and ne: "res \<noteq> []"
    by (simp_all add: parse_mp4_atoms_def)
  have mp: "moov_path B 0 res = None"
  proof (cases "moov_path B 0 res")
    case None
    then show ?thesis .
  next
    case (Some v)
    from moov_path_long [OF _ p ne Some] have "1718909296 \<le> length v" by simp
    moreover from Some have "length v \<le> length B"
      by (auto simp: moov_path_def Let_def length_py_slice_le split: option.splits if_splits)
    ultimately show ?thesis using cap by simp
  qed
  from m have "8 \<le> length m" "take 4 (drop 4 m) = moov"
    by (simp_all add: is_record_def)
  then have "m = take 4 m @ moov @ drop 8 m"
    by (metis append_take_drop_id drop_drop numeral_Bit0)
  then have "B = (sf @ ftyp @ take 4 m) @ moov @ (drop 8 m @ d)"
    unfolding B by (metis append_assoc)
  then have c: "bytes_contains moov B"
    by (metis bytes_contains_append)
  from cap have e: "min (0 + 104857600) (int (length B)) = int (length B)" by simp
  from big c have "window_path B 0 = Some B"
    by (simp add: window_path_def e py_slice_whole del: add_0)
  with p ne mp show ?thesis
    by (simp add: extract_mp4_video_def)
qed

section \<open>Properties of the signature scanner\<close>

lemma find_at_none:
  "find_at sub ys i = -1 \<longleftrightarrow> (\<forall>k \<le> length ys. \<not> prefix sub (drop k ys))"
proof (induction ys arbitrary: i)
  case Nil
  then show ?case by simp
next
  case (Cons y ys)
  show ?case
  proof (cases "prefix sub (y # ys)")
    case True
    then have "\<exists>k \<le> length (y # ys). prefix sub (drop k (y # ys))"
      by (intro exI [of _ 0]) simp
    with True show ?thesis by auto
  next
    case False
    have "(\<forall>k \<le> length (y # ys). \<not> prefix sub (drop k (y # ys))) \<longleftrightarrow>
          (\<forall>k \<le> length ys. \<not> prefix sub (drop k ys))"
    proof
      assume a: "\<forall>k \<le> length (y # ys). \<not> prefix sub (drop k (y # ys))"
      show "\<forall>k \<le> length ys. \<not> prefix sub (drop k ys)"
      proof (intro allI impI)
        fix k assume "k \<le> length ys"
        with a [rule_format, of "Suc k"] show "\<not> prefix sub (drop k ys)" by simp
      qed
    next
      assume a: "\<forall>k \<le> length ys. \<not> prefix sub (drop k ys)"
      show "\<forall>k \<le> length (y # ys). \<not> prefix sub (drop k (y # ys))"
      proof (intro allI impI)
        fix k assume k: "k \<le> length (y # ys)"
        show "\<not> prefix sub (drop k (y # ys))"
        proof (cases k)
          case 0
          with False show ?thesis by simp
        next
          case (Suc j)
          with k a [rule_format, of j] show ?thesis by simp
        qed
      qed
    qed
    with False Cons.IH [of "Suc i"] show ?thesis by simp
  qed
qed

lemma find_at_some:
  "find_at sub ys i \<noteq> -1 \<Longrightarrow>
   \<exists>k \<le> length ys. find_at sub ys i = int (i + k) \<and> prefix sub (drop k ys) \<and>
     (\<forall>j < k. \<not> prefix sub (drop j ys))"
proof (induction ys arbitrary: i)
  case Nil
  then show ?case by (simp split: if_splits)
next
  case (Cons y ys)
  show ?case
  proof (cases "prefix sub (y # ys)")
    case True
    then show ?thesis by (intro exI [of _ 0]) simp
  next
    case False
    with Cons.prems have "find_at sub ys (Suc i) \<noteq> -1" by simp
    from Cons.IH [OF this] obtain k where k: "k \<le> length ys"
      "find_at sub ys (Suc i) = int (Suc i + k)" "prefix sub (drop k ys)"
      "\<forall>j < k. \<not> prefix sub (drop j ys)" by blast
    have "\<forall>j < Suc k. \<not> prefix sub (drop j (y # ys))"
    proof (intro allI impI)
      fix j assume "j < Suc k"
      with False k(4) show "\<not> prefix sub (drop j (y # ys))" by (cases j) simp_all
    qed
    with False k show ?thesis by (intro exI [of _ "Suc k"]) simp
  qed
qed

lemma occurs_at_inside: "occurs_at content p \<Longrightarrow> p + 4 \<le> length content"
proof -
  assume "occurs_at content p"
  then have "length ftyp \<le> length (drop p content)"
    unfolding occurs_at_def by (rule prefix_length_le)
  then show ?thesis by (simp add: ftyp_def)
qed

lemma py_find_none:
  assumes "0 \<le> pos" and "py_find content ftyp pos = -1" and "nat pos \<le> p"
  shows "\<not> occurs_at content p"
proof (cases "int (length content) < pos")
  case True
  with assms(1,3) have "length content < p" by simp
  then show ?thesis using occurs_at_inside [of content p] by auto
next
  case False
  with assms(1,2) have f: "find_at ftyp (drop (nat pos) content) (nat pos) = -1"
    by (simp add: py_find_def)
  show ?thesis
  proof
    assume o: "occurs_at content p"
    then have "p + 4 \<le> length content" by (rule occurs_at_inside)
    with assms(3) have "p - nat pos \<le> length (drop (nat pos) content)" by simp
    with f have "\<not> prefix ftyp (drop (p - nat pos) (drop (nat pos) content))"
      unfolding find_at_none by blast
    with assms(3) o show False by (simp add: occurs_at_def)
  qed
qed

lemma py_find_some:
  assumes "0 \<le> pos" and "py_find content ftyp pos \<noteq> -1"
  shows "pos \<le> py_find content ftyp pos \<and> occurs_at content (nat (py_find content ftyp pos)) \<and>
         (\<forall>p. nat pos \<le> p \<and> int p < py_find content ftyp pos \<longrightarrow> \<not> occurs_at content p)"
proof -
  from assms have le: "pos \<le> int (length content)"
    and eq: "py_find content ftyp pos = find_at ftyp (drop (nat pos) content) (nat pos)"
    by (simp_all add: py_find_def split: if_splits)
  from assms(2) eq have "find_at ftyp (drop (nat pos) content) (nat pos) \<noteq> -1" by simp
  from find_at_some [OF this] obtain k where
    k: "find_at ftyp (drop (nat pos) content) (nat pos) = int (nat pos + k)"
      "prefix ftyp (drop k (drop (nat pos) content))"
      "\<forall>j < k. \<not> prefix ftyp (drop j (drop (nat pos) content))" by blast
  from k(1) eq assms(1) have r: "py_find content ftyp pos = pos + int k" by simp
  from k(2) assms(1) r have o: "occurs_at content (nat (py_find content ftyp pos))"
    by (simp add: occurs_at_def nat_add_distrib add.commute)
  have "\<not> occurs_at content p" if "nat pos \<le> p \<and> int p < py_find content ftyp pos" for p
  proof -
    from that r assms(1) have "p - nat pos < k" by linarith
    with k(3) have "\<not> prefix ftyp (drop (p - nat pos) (drop (nat pos) content))" by blast
    with that show ?thesis by (simp add: occurs_at_def)
  qed
  with r o show ?thesis by auto
qed

lemma occurs_at_no_overlap:
  assumes "occurs_at content p"
  shows "\<not> occurs_at content (p + 1) \<and> \<not> occurs_at content (p + 2) \<and> \<not> occurs_at content (p + 3)"
proof -
  from assms obtain zs where z: "drop p content = ftyp @ zs"
    by (auto simp: occurs_at_def prefix_def)
  have d: "drop (p + k) content = drop k (ftyp @ zs)" for k
    unfolding z [symmetric] by (simp only: drop_drop add.commute)
  have "\<not> prefix ftyp (drop 1 (ftyp @ zs))" "\<not> prefix ftyp (drop 2 (ftyp @ zs))"
    "\<not> prefix ftyp (drop 3 (ftyp @ zs))"
    by (simp_all add: ftyp_def)
  then show ?thesis
    unfolding occurs_at_def d by simp
qed

lemma filter_upt_skip:
  assumes "a \<le> b" and "\<forall>p. a \<le> p \<and> p < b \<longrightarrow> \<not> P p"
  shows "filter P [a..<n] = filter P [b..<n]"
proof (cases "b \<le> n")
  case True
  with assms(1) have "[a..<n] = [a..<b] @ [b..<n]"
    by (metis le_Suc_ex upt_add_eq_append)
  moreover from assms(2) have "filter P [a..<b] = []"
    by (simp add: filter_empty_conv)
  ultimately show ?thesis by simp
next
  case False
  with assms(2) have "filter P [a..<n] = []"
    by (simp add: filter_empty_conv)
  with False show ?thesis by simp
qed

lemma probed_save_video: "probed (save_video st r) = probed st"
  by (simp add: save_video_def split: option.splits)

lemma scan_loop_probed:
  "0 \<le> pos \<Longrightarrow>
   probed (scan_loop content pos st) =
   probed st @ map (\<lambda>p. int p - 4)
     (filter (\<lambda>p. 4 \<le> p \<and> occurs_at content p) [nat pos..<length content])"
proof (induction content pos st rule: scan_loop.induct)
  case (1 content pos st)
  let ?P = "\<lambda>p. 4 \<le> p \<and> occurs_at content p"
  let ?n = "length content"
  define r where "r = py_find content ftyp pos"
  show ?case
  proof (cases "r = -1")
    case True
    then have "\<forall>p. nat pos \<le> p \<and> p < ?n \<longrightarrow> \<not> ?P p"
      using py_find_none [OF "1.prems"] unfolding r_def by blast
    then have "filter ?P [nat pos..<?n] = []"
      by (simp add: filter_empty_conv)
    with True show ?thesis
      by (simp add: scan_loop.simps [of content pos st] r_def [symmetric])
  next
    case found: False
    from py_find_some [OF "1.prems"] found
    have ge: "pos \<le> r" and occ: "occurs_at content (nat r)"
      and first: "\<forall>p. nat pos \<le> p \<and> int p < r \<longrightarrow> \<not> occurs_at content p"
      unfolding r_def by blast+
    from occ have inside: "nat r + 4 \<le> ?n" by (rule occurs_at_inside)
    from ge "1.prems" have r0: "0 \<le> r" by simp
    show ?thesis
    proof (cases "r < 4")
      case True
      from "1.IH"(1) [OF r_def found True] r0
      have ih: "probed (scan_loop content (r + 1) st) =
                probed st @ map (\<lambda>p. int p - 4) (filter ?P [nat (r + 1)..<?n])"
        by simp
      have "\<forall>p. nat pos \<le> p \<and> p < nat (r + 1) \<longrightarrow> \<not> ?P p"
      proof (intro allI impI)
        fix p assume p: "nat pos \<le> p \<and> p < nat (r + 1)"
        show "\<not> ?P p"
        proof (cases "int p < r")
          case True
          with p first show ?thesis by blast
        next
          case False
          with p r0 have "int p = r" by linarith
          with \<open>r < 4\<close> show ?thesis by simp
        qed
      qed
      moreover from ge "1.prems" have "nat pos \<le> nat (r + 1)" by simp
      ultimately have "filter ?P [nat pos..<?n] = filter ?P [nat (r + 1)..<?n]"
        by (intro filter_upt_skip) simp_all
      with ih found True show ?thesis
        by (simp add: scan_loop.simps [of content pos st] r_def [symmetric])
    next
      case False
      define st' where "st' = save_video (st\<lparr>probed := probed st @ [r - 4]\<rparr>)
                                (extract_mp4_video content (r - 4))"
      from False have nn: "\<not> r - 4 < 0" by simp
      from "1.IH"(3) [OF r_def found False refl nn refl st'_def] r0
      have ih: "probed (scan_loop content (r + 4) st') =
                probed st' @ map (\<lambda>p. int p - 4) (filter ?P [nat (r + 4)..<?n])"
        by simp
      have pst: "probed st' = probed st @ [r - 4]"
        by (simp add: st'_def probed_save_video)
      have skip1: "filter ?P [nat pos..<?n] = filter ?P [nat r..<?n]"
      proof (intro filter_upt_skip)
        from ge "1.prems" show "nat pos \<le> nat r" by simp
        from first r0 show "\<forall>p. nat pos \<le> p \<and> p < nat r \<longrightarrow> \<not> ?P p" by auto
      qed
      from inside have "[nat r..<?n] = nat r # [Suc (nat r)..<?n]"
        by (intro upt_conv_Cons) simp
      with occ False r0 have hd: "filter ?P [nat r..<?n] = nat r # filter ?P [Suc (nat r)..<?n]"
        by simp
      have skip2: "filter ?P [Suc (nat r)..<?n] = filter ?P [nat (r + 4)..<?n]"
      proof (intro filter_upt_skip)
        from r0 show "Suc (nat r) \<le> nat (r + 4)" by simp
        show "\<forall>p. Suc (nat r) \<le> p \<and> p < nat (r + 4) \<longrightarrow> \<not> ?P p"
        proof (intro allI impI)
          fix p assume "Suc (nat r) \<le> p \<and> p < nat (r + 4)"
          with r0 have "p = nat r + 1 \<or> p = nat r + 2 \<or> p = nat r + 3" by linarith
          with occurs_at_no_overlap [OF occ] show "\<not> ?P p" by auto
        qed
      qed
      from r0 have "int (nat r) - 4 = r - 4" by simp
      with ih pst skip1 hd skip2 found False nn show ?thesis
        by (simp add: scan_loop.simps [of content pos st] r_def [symmetric] st'_def [symmetric] Let_def)
    qed
  qed
qed

text \<open>
  Claim C8. The start offsets handed to \<^verbatim>\<open>extract_mp4_video\<close> during a scan are, in
  order, \<open>p - 4\<close> for exactly the occurrences \<open>p \<ge> 4\<close> of the signature in the
  buffer: an occurrence at offset 0, 1, 2 or 3 gives no candidate, every candidate
  is \<open>\<ge> 0\<close> and has the signature 4 bytes after it, and every occurrence behind a
  skipped one is still reached.
\<close>

theorem scanner_candidate_starts:
  "probed (extract_unity_videos (Inr content)) =
     map (\<lambda>p. int p - 4) (filter (\<lambda>p. 4 \<le> p \<and> occurs_at content p) [0..<length content]) \<and>
   (\<forall>c \<in> set (probed (extract_unity_videos (Inr content))).
      0 \<le> c \<and> occurs_at content (nat (c + 4)))"
proof -
  have eq: "probed (extract_unity_videos (Inr content)) =
     map (\<lambda>p. int p - 4) (filter (\<lambda>p. 4 \<le> p \<and> occurs_at content p) [0..<length content])"
    using scan_loop_probed [of 0 content scan_init]
    by (simp add: extract_unity_videos_def scan_init_def)
  have "0 \<le> c \<and> occurs_at content (nat (c + 4))"
    if "c \<in> set (probed (extract_unity_videos (Inr content)))" for c
  proof -
    from that obtain p where "c = int p - 4" "4 \<le> p" "occurs_at content p"
      unfolding eq by auto
    moreover from this have "nat (c + 4) = p" by simp
    ultimately show ?thesis by simp
  qed
  with eq show ?thesis by blast
qed

theorem scanner_candidate_starts_witness:
  "occurs_at scan_sample 1 \<and> occurs_at scan_sample 9 \<and>
   probed (extract_unity_videos (Inr scan_sample)) = [5]"
proof -
  have len: "length scan_sample = 14" by (simp add: scan_sample_def ftyp_def)
  have "[0..<14] = [0, 1, 2, 3, 4, 5, 6, 7, 8, 9, 10, 11, 12, 13::nat]"
    by (simp add: upt_conv_Cons)
  then have f: "filter (\<lambda>p. 4 \<le> p \<and> occurs_at scan_sample p) [0..<14] = [9]"
    by (simp add: occurs_at_def scan_sample_def ftyp_def)
  have o: "occurs_at scan_sample 1" "occurs_at scan_sample 9"
    by (simp_all add: occurs_at_def scan_sample_def ftyp_def)
  from scanner_candidate_starts [of scan_sample] f o show ?thesis
    by (simp add: len)
qed

section \<open>Properties of the files written and of the per-file policy\<close>

lemma written_save_video:
  "list_all (\<lambda>v. 1000 < length v) (map snd (written st)) \<Longrightarrow>
   list_all (\<lambda>v. 1000 < length v) (map snd (written (save_video st r)))"
  by (simp add: save_video_def split: option.splits)

lemma scan_loop_written_long:
  "list_all (\<lambda>v. 1000 < length v) (map snd (written st)) \<Longrightarrow>
   list_all (\<lambda>v. 1000 < length v) (map snd (written (scan_loop content pos st)))"
proof (induction content pos st rule: scan_loop.induct)
  case (1 content pos st)
  define r where "r = py_find content ftyp pos"
  show ?case
  proof (cases "r = -1")
    case True
    with "1.prems" show ?thesis
      by (simp add: scan_loop.simps [of content pos st] r_def [symmetric])
  next
    case found: False
    show ?thesis
    proof (cases "r < 4")
      case True
      with found "1.IH"(1) [OF r_def found True "1.prems"] show ?thesis
        by (simp add: scan_loop.simps [of content pos st] r_def [symmetric])
    next
      case False
      define st' where "st' = save_video (st\<lparr>probed := probed st @ [r - 4]\<rparr>)
                                (extract_mp4_video content (r - 4))"
      from False have nn: "\<not> r - 4 < 0" by simp
      from "1.prems" have "list_all (\<lambda>v. 1000 < length v) (map snd (written st'))"
        unfolding st'_def by (intro written_save_video) simp
      from "1.IH"(3) [OF r_def found False refl nn refl st'_def this] found False nn
      show ?thesis
        by (simp add: scan_loop.simps [of content pos st] r_def [symmetric] st'_def [symmetric] Let_def)
    qed
  qed
qed

lemma extract_unity_videos_long:
  "list_all (\<lambda>v. 1000 < length v) (map snd (written (extract_unity_videos r)))"
proof (cases r)
  case (Inl e)
  then show ?thesis by (simp add: extract_unity_videos_def scan_init_def)
next
  case (Inr content)
  have "list_all (\<lambda>v. 1000 < length v) (map snd (written scan_init))"
    by (simp add: scan_init_def)
  from scan_loop_written_long [OF this] Inr show ?thesis
    by (simp add: extract_unity_videos_def)
qed

lemma select_payload_long:
  assumes "select_payload raw_data = Some v"
  shows "1000 < length v"
proof (cases "prefix ftyp raw_data")
  case True
  with assms show ?thesis
    by (simp add: select_payload_def split: if_splits)
next
  case False
  define q where "q = py_find raw_data ftyp 0"
  from assms False have "4 \<le> q" and "extract_mp4_video raw_data (q - 4) = Some v"
    by (auto simp: select_payload_def Let_def q_def split: if_splits option.splits)
  then show ?thesis
    using extract_mp4_video_long [of "q - 4" raw_data v] by simp
qed

lemma extract_object_long:
  "extract_object obj = Some (t, v) \<Longrightarrow> 1000 < length v"
  by (auto simp: extract_object_def Let_def dest: select_payload_long
      split: if_splits sum.splits option.splits)

lemma objects_loop_invariant:
  "list_all (\<lambda>(t, i, v). 1000 < length v) (up_written st) \<Longrightarrow> up_count st = length (up_written st) \<Longrightarrow>
   list_all (\<lambda>(t, i, v). 1000 < length v) (up_written (objects_loop objs i st)) \<and>
   up_count (objects_loop objs i st) = length (up_written (objects_loop objs i st))"
proof (induction objs arbitrary: i st)
  case Nil
  then show ?case by simp
next
  case (Cons obj objs)
  show ?case
  proof (cases "extract_object obj")
    case None
    with Cons.IH [of st "Suc i"] Cons.prems show ?thesis by simp
  next
    case (Some tv)
    obtain t v where tv: "tv = (t, v)" by (cases tv)
    with Some have "1000 < length v" by (auto dest: extract_object_long)
    with Cons.prems Some tv
      Cons.IH [of "st\<lparr>up_written := up_written st @ [(t, i, v)], up_count := up_count st + 1\<rparr>" "Suc i"]
    show ?thesis by simp
  qed
qed

lemma extract_unitypy_videos_invariant:
  "list_all (\<lambda>(t, i, v). 1000 < length v) (up_written (extract_unitypy_videos l)) \<and>
   up_count (extract_unitypy_videos l) = length (up_written (extract_unitypy_videos l))"
proof (cases l)
  case (Inl e)
  then show ?thesis by (simp add: extract_unitypy_videos_def unitypy_init_def)
next
  case (Inr objs)
  with objects_loop_invariant [of unitypy_init objs 0] show ?thesis
    by (simp add: extract_unitypy_videos_def unitypy_init_def)
qed

lemma len_ftyp_blob: "length ftyp_blob = 1001"
  by (simp add: ftyp_blob_def ftyp_def)

lemma unitypy_with_clip:
  "extract_unitypy_videos (Inr [video_clip]) =
   \<lparr>up_count = 1, up_written = [(''VideoClip'', 0, ftyp_blob)]\<rparr>"
proof -
  have "prefix ftyp ftyp_blob" by (simp add: ftyp_blob_def)
  then have "select_payload ftyp_blob = Some ftyp_blob"
    using len_ftyp_blob by (auto simp: select_payload_def)
  then have "extract_object video_clip = Some (''VideoClip'', ftyp_blob)"
    by (simp add: extract_object_def video_clip_def video_attrs_def)
  then show ?thesis
    by (simp add: extract_unitypy_videos_def unitypy_init_def)
qed

text \<open>
  Claim C10. Every file written while an input file is processed, by the
  structured path and by the scanner alike, is longer than 1000 bytes.
\<close>

theorem written_payloads_long:
  "list_all (\<lambda>v. 1000 < length v) (files_written (process_file env))"
proof -
  have a: "list_all (\<lambda>v. 1000 < length v)
             (map (\<lambda>(obj_type, i, payload). payload) (up_written (extract_unitypy_videos l)))" for l
    using extract_unitypy_videos_invariant [of l]
    by (auto simp: list_all_iff)
  show ?thesis
    using a [of "unity_load env"] extract_unity_videos_long [of "raw_read env"]
    by (simp add: files_written_def process_file_def Let_def)
qed

theorem written_payloads_long_witness:
  "files_written (process_file env_with_clip) = [ftyp_blob] \<and> 1000 < length ftyp_blob"
  using written_payloads_long [of env_with_clip]
  by (simp add: files_written_def process_file_def env_with_clip_def unitypy_with_clip len_ftyp_blob)

text \<open>
  Claim C9. For every input file the scanner runs on the raw content exactly when
  the structured path returned the count 0, which is exactly when it wrote no
  file; a failure to load the file is such a case: it gives the count 0 and the
  scanner runs.
\<close>

theorem fallback_policy:
  "scanner (process_file env) =
     (if up_count (extract_unitypy_videos (unity_load env)) = 0
      then Some (extract_unity_videos (raw_read env)) else None) \<and>
   (up_count (extract_unitypy_videos (unity_load env)) = 0 \<longleftrightarrow>
      up_written (extract_unitypy_videos (unity_load env)) = []) \<and>
   up_count (extract_unitypy_videos (Inl e)) = 0 \<and>
   scanner (process_file (env\<lparr>unity_load := Inl e\<rparr>)) = Some (extract_unity_videos (raw_read env))"
proof -
  have "up_count (extract_unitypy_videos (Inl e)) = 0"
    by (simp add: extract_unitypy_videos_def unitypy_init_def)
  moreover have "up_count (extract_unitypy_videos (unity_load env)) = 0 \<longleftrightarrow>
      up_written (extract_unitypy_videos (unity_load env)) = []"
    using extract_unitypy_videos_invariant [of "unity_load env"] by simp
  ultimately show ?thesis
    by (simp add: process_file_def Let_def)
qed

theorem fallback_policy_witness:
  "scanner (process_file env_unloadable) = Some (extract_unity_videos (Inr scan_sample)) \<and>
   up_count (extract_unitypy_videos (unity_load env_with_clip)) = 1 \<and>
   scanner (process_file env_with_clip) = None"
proof -
  have u: "unity_load env_unloadable = Inl LoadError" "raw_read env_unloadable = Inr scan_sample"
    by (simp_all add: env_unloadable_def)
  have c: "up_count (extract_unitypy_videos (unity_load env_with_clip)) = 1"
    by (simp add: env_with_clip_def unitypy_with_clip)
  from fallback_policy [of env_unloadable LoadError]
  have "scanner (process_file env_unloadable) = Some (extract_unity_videos (Inr scan_sample))"
    by (simp add: u)
  moreover from fallback_policy [of env_with_clip LoadError] c
  have "scanner (process_file env_with_clip) = None" by simp
  ultimately show ?thesis using c by simp
qed

end
